theory Spec2Isabelle
  imports Main "HOL-Library.Sublist"
begin

section \<open>Python values and exceptions\<close>

text \<open>
  The exceptions that the crawler's code can meet. All of them derive from Python's
  \<^verbatim>\<open>Exception\<close> except \<^verbatim>\<open>CancelledError\<close>, which derives from
  \<^verbatim>\<open>BaseException\<close> and is therefore not caught by \<^verbatim>\<open>except Exception\<close>.
\<close>

datatype exn =
    AttributeError
  | TypeError
  | ValueError
  | JSONDecodeError
  | OSError
  | PlaywrightError
  | CancelledError

fun is_Exception :: "exn \<Rightarrow> bool" where
  "is_Exception CancelledError = False"
| "is_Exception _ = True"

definition and_then :: "exn + 'a \<Rightarrow> ('a \<Rightarrow> exn + 'b) \<Rightarrow> exn + 'b" where
  "and_then r f = (case r of Inl e \<Rightarrow> Inl e | Inr v \<Rightarrow> f v)"

text \<open>
  The objects that \<^verbatim>\<open>json.load\<close> and \<^verbatim>\<open>response.json()\<close> return. A dict is kept as
  the list of its items in insertion order (its keys are distinct). The crawler never
  computes with a float: it only tests it for truth and prints it, so a float is carried
  as the text that \<^verbatim>\<open>repr\<close> gives for it.
\<close>

datatype json =
    JNull
  | JBool bool
  | JInt int
  | JFloat string
  | JStr string
  | JArr "json list"
  | JObj "(string \<times> json) list"

text \<open>\<^verbatim>\<open>d.get(k, dflt)\<close>: only a dict has the method.\<close>

definition dict_get :: "json \<Rightarrow> string \<Rightarrow> json \<Rightarrow> exn + json" where
  "dict_get d k dflt =
     (case d of
        JObj items \<Rightarrow> Inr (case map_of items k of None \<Rightarrow> dflt | Some v \<Rightarrow> v)
      | _ \<Rightarrow> Inl AttributeError)"

text \<open>The truth value that \<^verbatim>\<open>if objects:\<close> tests.\<close>

fun truthy :: "json \<Rightarrow> bool" where
  "truthy JNull = False"
| "truthy (JBool b) = b"
| "truthy (JInt i) = (i \<noteq> 0)"
| "truthy (JFloat r) = (r \<noteq> ''0.0'' \<and> r \<noteq> ''-0.0'')"
| "truthy (JStr s) = (s \<noteq> [])"
| "truthy (JArr xs) = (xs \<noteq> [])"
| "truthy (JObj items) = (items \<noteq> [])"

text \<open>
  The elements that a \<^verbatim>\<open>for\<close> loop or \<^verbatim>\<open>map\<close> draws from a value: the elements of a
  list, the keys of a dict, the characters of a string; anything else is not iterable.
\<close>

fun py_iter :: "json \<Rightarrow> exn + json list" where
  "py_iter (JArr xs) = Inr xs"
| "py_iter (JObj items) = Inr (map (\<lambda>kv. JStr (fst kv)) items)"
| "py_iter (JStr s) = Inr (map (\<lambda>c. JStr [c]) s)"
| "py_iter _ = Inl TypeError"

text \<open>A list comprehension over a function that may raise: the first raise ends it.\<close>

fun comprehension :: "('a \<Rightarrow> exn + 'b) \<Rightarrow> 'a list \<Rightarrow> exn + 'b list" where
  "comprehension f [] = Inr []"
| "comprehension f (x # xs) =
     (case f x of
        Inl e \<Rightarrow> Inl e
      | Inr y \<Rightarrow> (case comprehension f xs of Inl e \<Rightarrow> Inl e | Inr ys \<Rightarrow> Inr (y # ys)))"

text \<open>Python's \<^verbatim>\<open>sub in s\<close> on strings: \<^verbatim>\<open>sub\<close> occurs in \<^verbatim>\<open>s\<close> as a contiguous piece.\<close>

fun str_in :: "string \<Rightarrow> string \<Rightarrow> bool" where
  "str_in sub [] = (sub = [])"
| "str_in sub (c # cs) = (prefix sub (c # cs) \<or> str_in sub cs)"

text \<open>The number of positions of \<^verbatim>\<open>s\<close> at which \<^verbatim>\<open>sub\<close> starts.\<close>

fun occurrences :: "string \<Rightarrow> string \<Rightarrow> nat" where
  "occurrences sub [] = (if sub = [] then 1 else 0)"
| "occurrences sub (c # cs) = (if prefix sub (c # cs) then 1 else 0) + occurrences sub cs"


subsection \<open>Printing values\<close>

definition digit_char :: "nat \<Rightarrow> char" where
  "digit_char d = ''0123456789'' ! d"

function str_nat :: "nat \<Rightarrow> string" where
  "str_nat n =
     (if n < 10 then [digit_char n] else str_nat (n div 10) @ [digit_char (n mod 10)])"
  by pat_completeness auto
termination
  by (relation "measure id") auto

declare str_nat.simps [simp del]

definition str_int :: "int \<Rightarrow> string" where
  "str_int i = (if i < 0 then CHR ''-'' # str_nat (nat (- i)) else str_nat (nat i))"

text \<open>
  What an f-string puts for \<^verbatim>\<open>{v}\<close>, that is \<^verbatim>\<open>str(v)\<close>. The text of a list or of a
  dict (Python's \<^verbatim>\<open>repr\<close> of the container) is the parameter \<open>repr\<close>.
\<close>

fun py_str :: "(json \<Rightarrow> string) \<Rightarrow> json \<Rightarrow> string" where
  "py_str repr JNull = ''None''"
| "py_str repr (JBool b) = (if b then ''True'' else ''False'')"
| "py_str repr (JInt i) = str_int i"
| "py_str repr (JFloat r) = r"
| "py_str repr (JStr s) = s"
| "py_str repr (JArr xs) = repr (JArr xs)"
| "py_str repr (JObj items) = repr (JObj items)"

text \<open>
  A JSON number as Python holds it: an int, or a float whose text is made of the
  characters that \<^verbatim>\<open>repr\<close> of a float uses (digits, sign, point, exponent, and the
  letters of \<^verbatim>\<open>inf\<close> and \<^verbatim>\<open>nan\<close>).
\<close>

fun numeric :: "json \<Rightarrow> bool" where
  "numeric (JInt i) = True"
| "numeric (JFloat r) = (r \<noteq> [] \<and> set r \<subseteq> set ''0123456789.-+einfa'')"
| "numeric _ = False"

section \<open>URL synthesis\<close>

definition zoom :: string where
  "zoom = ''19.00''"

text \<open>\<^verbatim>\<open>generate_url\<close>; \<open>crawler_url\<close> is \<^verbatim>\<open>settings.crawler_url\<close>.\<close>

definition generate_url :: "(json \<Rightarrow> string) \<Rightarrow> string \<Rightarrow> json \<Rightarrow> exn + string" where
  "generate_url repr crawler_url feature =
     and_then (dict_get feature ''properties'' JNull) (\<lambda>props_lat.
     and_then (dict_get props_lat ''lat'' JNull) (\<lambda>lat.
     and_then (dict_get feature ''properties'' JNull) (\<lambda>props_lng.
     and_then (dict_get props_lng ''lng'' JNull) (\<lambda>lng.
       Inr (crawler_url @ ''?camera='' @ py_str repr lat @ '','' @ py_str repr lng
              @ '','' @ zoom @ '',0.0,0.0,d'')))))"

text \<open>
  The first statement of \<^verbatim>\<open>run\<close> after the browser is up:
  \<^verbatim>\<open>urls = [self.generate_url(feature) for feature in self.grid_data.get("features")]\<close>.
\<close>

definition crawl_urls :: "(json \<Rightarrow> string) \<Rightarrow> string \<Rightarrow> json \<Rightarrow> exn + string list" where
  "crawl_urls repr crawler_url grid_data =
     and_then (dict_get grid_data ''features'' JNull) (\<lambda>features.
     and_then (py_iter features) (comprehension (generate_url repr crawler_url)))"

text \<open>A feature whose \<^verbatim>\<open>properties\<close> entry is a dict, so that both \<^verbatim>\<open>get\<close> calls go through.\<close>

fun has_properties :: "json \<Rightarrow> bool" where
  "has_properties (JObj items) =
     (case map_of items ''properties'' of Some (JObj props) \<Rightarrow> True | _ \<Rightarrow> False)"
| "has_properties _ = False"

section \<open>The request filter\<close>

record http_message =
  url :: string









section \<open>The record sink\<close>

subsection \<open>The line of a row\<close>

text \<open>
  The CSV writer (dialect \<^verbatim>\<open>excel\<close>, minimal quoting) makes one line of a row, and the
  file encodes it as UTF-8. A field that is \<^verbatim>\<open>None\<close> is empty, a string stands as it
  is, and any other value stands as \<^verbatim>\<open>str\<close> prints it, which for a list or a dict is
  Python's \<^verbatim>\<open>repr\<close>. Here a string is the list of its code points, each below 256.
\<close>

definition printable :: "char \<Rightarrow> bool" where
  "printable c =
     (let n = (of_char c :: nat) in (32 \<le> n \<and> n < 127) \<or> (161 \<le> n \<and> n \<noteq> 173))"

definition hex_digit :: "nat \<Rightarrow> char" where
  "hex_digit d = ''0123456789abcdef'' ! d"

text \<open>\<^verbatim>\<open>repr\<close> of a string: \<open>q\<close> is the quote that encloses it.\<close>

definition repr_char :: "char \<Rightarrow> char \<Rightarrow> string" where
  "repr_char q c =
     (if c = q \<or> c = CHR 0x5C then [CHR 0x5C, c]
      else if c = CHR 0x09 then [CHR 0x5C, CHR ''t'']
      else if c = CHR 0x0A then [CHR 0x5C, CHR ''n'']
      else if c = CHR 0x0D then [CHR 0x5C, CHR ''r'']
      else if printable c then [c]
      else [CHR 0x5C, CHR ''x'', hex_digit (of_char c div 16), hex_digit (of_char c mod 16)])"

definition repr_str :: "string \<Rightarrow> string" where
  "repr_str s =
     (let q = (if CHR 0x27 \<in> set s \<and> CHR 0x22 \<notin> set s then CHR 0x22 else CHR 0x27)
      in q # concat (map (repr_char q) s) @ [q])"

text \<open>\<^verbatim>\<open>sep.join(xs)\<close>\<close>

fun str_join :: "string \<Rightarrow> string list \<Rightarrow> string" where
  "str_join sep [] = []"
| "str_join sep [x] = x"
| "str_join sep (x # y # ys) = x @ sep @ str_join sep (y # ys)"

fun py_repr :: "json \<Rightarrow> string" where
  "py_repr JNull = ''None''"
| "py_repr (JBool b) = (if b then ''True'' else ''False'')"
| "py_repr (JInt i) = str_int i"
| "py_repr (JFloat r) = r"
| "py_repr (JStr s) = repr_str s"
| "py_repr (JArr xs) = ''['' @ str_join '', '' (map py_repr xs) @ '']''"
| "py_repr (JObj items) =
     ''{'' @ str_join '', ''
              (map (\<lambda>kv. repr_str (fst kv) @ '': '' @ py_repr (snd kv)) items) @ ''}''"

fun field_text :: "json \<Rightarrow> string" where
  "field_text JNull = []"
| "field_text (JStr s) = s"
| "field_text v = py_repr v"

text \<open>
  A field with a comma, a double quote, a carriage return or a line feed is enclosed in
  double quotes, and each double quote in it is doubled.
\<close>

definition csv_field :: "string \<Rightarrow> string" where
  "csv_field s =
     (if list_ex (\<lambda>c. c \<in> set [CHR '','', CHR 0x22, CHR 0x0D, CHR 0x0A]) s
      then CHR 0x22 # concat (map (\<lambda>c. if c = CHR 0x22 then [CHR 0x22, CHR 0x22] else [c]) s)
           @ [CHR 0x22]
      else s)"

definition csv_line :: "json list \<Rightarrow> string" where
  "csv_line row = str_join '','' (map (\<lambda>v. csv_field (field_text v)) row) @ [CHR 0x0D, CHR 0x0A]"

definition utf8_bytes :: "string \<Rightarrow> nat" where
  "utf8_bytes s = sum_list (map (\<lambda>c. if (of_char c :: nat) < 128 then 1 else 2) s)"

definition line_bytes :: "json list \<Rightarrow> nat" where
  "line_bytes row = utf8_bytes (csv_line row)"

subsection \<open>The output file\<close>

text \<open>
  The output file after \<^verbatim>\<open>writeheader\<close>. It is opened with Python's default buffering:
  the text layer of the file object holds back the lines that \<^verbatim>\<open>write\<close> gives it, and
  hands them on only when it flushes, which it does when a write brings the bytes held
  back up to \<open>buffer_size\<close> (8192, the chunk of the text layer), and when the file is
  closed. The binary layer under it buffers no more than a block of the device, which is
  less than a chunk (4096 on the common file systems), so that what the text layer hands
  on goes to the device at once: the two layers are taken as one buffer. The fields are:
  the rows that \<^verbatim>\<open>write\<close> has taken, each the list of the thirteen values handed to the
  CSV writer; the number of lines held back, the header among them, and their bytes; the
  size of the buffer; and what the device will still take: \<open>capacity = Some n\<close> is
  room for \<open>n\<close> more lines, \<open>None\<close> a device that never refuses.
\<close>

record csv_file =
  written :: "json list list"
  held :: nat
  held_bytes :: nat
  buffer_size :: nat
  capacity :: "nat option"

text \<open>
  Whether the device has room for the lines held back and \<open>k\<close> more, and whether the
  write of a row makes the file flush.
\<close>

definition has_room :: "csv_file \<Rightarrow> nat \<Rightarrow> bool" where
  "has_room f k = (case capacity f of None \<Rightarrow> True | Some n \<Rightarrow> held f + k \<le> n)"

definition flushes :: "csv_file \<Rightarrow> json list \<Rightarrow> bool" where
  "flushes f row = (buffer_size f \<le> held_bytes f + line_bytes row)"

text \<open>The file after a write that went through: the row is held back, or all is flushed.\<close>

definition take_row :: "csv_file \<Rightarrow> json list \<Rightarrow> csv_file" where
  "take_row f row =
     (if flushes f row
      then f\<lparr>written := written f @ [row], held := 0, held_bytes := 0,
             capacity := map_option (\<lambda>n. n - (held f + 1)) (capacity f)\<rparr>
      else f\<lparr>written := written f @ [row], held := held f + 1,
             held_bytes := held_bytes f + line_bytes row\<rparr>)"

text \<open>
  \<^verbatim>\<open>write\<close> raises only when it flushes and the device refuses; the text layer has
  then dropped what it held back. A line of \<open>buffer_size\<close> bytes or more is handed on
  apart from the lines held back, which makes no difference to whether the write raises
  nor to what a flush that goes through leaves; after a refused one the binary layer may
  still hold the lines that were held back. So the file after a failed flush is exact for
  shorter lines only, and the results below do not speak of it.
\<close>

definition file_write :: "csv_file \<Rightarrow> json list \<Rightarrow> exn \<times> csv_file + csv_file" where
  "file_write f row =
     (if flushes f row \<and> \<not> has_room f 1
      then Inl (OSError, f\<lparr>held := 0, held_bytes := 0\<rparr>)
      else Inr (take_row f row))"


definition fieldnames :: "string list" where
  "fieldnames =
     [''bearing'', ''camera'', ''elevation'', ''endDate'', ''id'', ''location'', ''maxZoom'',
      ''minZoom'', ''model'', ''name'', ''scale'', ''startDate'', ''types'']"

text \<open>
  \<^verbatim>\<open>csv.DictWriter._dict_to_list\<close> with the defaults that the crawler leaves in place
  (\<^verbatim>\<open>extrasaction="raise"\<close>, \<^verbatim>\<open>restval=""\<close>): a key outside the header is a
  \<^verbatim>\<open>ValueError\<close>, a header field that the dict lacks is the empty string, and a row
  that is no dict has no \<^verbatim>\<open>keys\<close>.
\<close>

fun dict_to_list :: "string list \<Rightarrow> json \<Rightarrow> exn + json list" where
  "dict_to_list fns (JObj items) =
     (if filter (\<lambda>k. k \<notin> set fns) (map fst items) \<noteq> [] then Inl ValueError
      else Inr (map (\<lambda>key. case map_of items key of None \<Rightarrow> JStr [] | Some v \<Rightarrow> v) fns))"
| "dict_to_list fns _ = Inl AttributeError"

text \<open>
  \<^verbatim>\<open>DictWriter.writerows\<close> hands the writer a lazy \<^verbatim>\<open>map\<close>, so each row is converted
  and written before the next one is looked at.
\<close>

fun write_each :: "string list \<Rightarrow> csv_file \<Rightarrow> json list \<Rightarrow> exn option \<times> csv_file" where
  "write_each fns f [] = (None, f)"
| "write_each fns f (rowdict # rowdicts) =
     (case dict_to_list fns rowdict of
        Inl e \<Rightarrow> (Some e, f)
      | Inr row \<Rightarrow>
          (case file_write f row of
             Inl (e, f') \<Rightarrow> (Some e, f')
           | Inr f' \<Rightarrow> write_each fns f' rowdicts))"

definition writerows :: "string list \<Rightarrow> csv_file \<Rightarrow> json \<Rightarrow> exn option \<times> csv_file" where
  "writerows fns f rowdicts =
     (case py_iter rowdicts of Inl e \<Rightarrow> (Some e, f) | Inr xs \<Rightarrow> write_each fns f xs)"

text \<open>
  To state what a run of writes leaves behind: the file after the rows \<open>rows\<close> went
  through.
\<close>

definition append_rows :: "csv_file \<Rightarrow> json list list \<Rightarrow> csv_file" where
  "append_rows f rows = foldl take_row f rows"

section \<open>The response extractor\<close>

text \<open>
  A response as the handler sees it: its URL and what \<^verbatim>\<open>await response.json()\<close>
  gives, the parsed body or the exception raised.
\<close>

record response = http_message +
  json_body :: "exn + json"

datatype log_entry =
    Crawled string json
  | ProcessFailed string exn
  | CrawlFailed string exn

datatype page_event = Opened string | Closed string

text \<open>The crawler's mutable state: the output file, the log, and the pages opened and closed.\<close>

record crawler =
  crawler_file :: csv_file
  logged :: "log_entry list"
  pages :: "page_event list"

text \<open>\<^verbatim>\<open>res_json.get("result", {}).get("objects", [])\<close>\<close>

definition result_objects :: "json \<Rightarrow> exn + json" where
  "result_objects res_json =
     and_then (dict_get res_json ''result'' (JObj [])) (\<lambda>result.
       dict_get result ''objects'' (JArr []))"

text \<open>The body of the \<^verbatim>\<open>try\<close> of \<^verbatim>\<open>response_url\<close>.\<close>

definition extract_objects :: "response \<Rightarrow> crawler \<Rightarrow> exn option \<times> crawler" where
  "extract_objects rs st =
     (case json_body rs of
        Inl e \<Rightarrow> (Some e, st)
      | Inr res_json \<Rightarrow>
          (case result_objects res_json of
             Inl e \<Rightarrow> (Some e, st)
           | Inr objects \<Rightarrow>
               (case (if truthy objects then writerows fieldnames (crawler_file st) objects
                      else (None, crawler_file st)) of
                  (Some e, f) \<Rightarrow> (Some e, st\<lparr>crawler_file := f\<rparr>)
                | (None, f) \<Rightarrow>
                    (None, st\<lparr>crawler_file := f,
                               logged := logged st @ [Crawled (url rs) objects]\<rparr>))))"

text \<open>
  \<^verbatim>\<open>try: ... except Exception as e: logger.error(...)\<close> around a body \<open>body\<close>; \<open>entry\<close>
  makes the log line.
\<close>

definition except_Exception ::
  "(exn \<Rightarrow> log_entry) \<Rightarrow> exn option \<times> crawler \<Rightarrow> exn option \<times> crawler" where
  "except_Exception entry body =
     (case body of
        (None, st) \<Rightarrow> (None, st)
      | (Some e, st) \<Rightarrow>
          if is_Exception e then (None, st\<lparr>logged := logged st @ [entry e]\<rparr>)
          else (Some e, st))"

definition response_url :: "response \<Rightarrow> crawler \<Rightarrow> exn option \<times> crawler" where
  "response_url rs st =
     (if str_in ''mode=3d'' (url rs)
      then except_Exception (ProcessFailed (url rs)) (extract_objects rs st)
      else (None, st))"

section \<open>The page session\<close>

text \<open>
  What the browser does to one session: whether each awaited call raises, and the
  responses that reach the handler while \<^verbatim>\<open>goto\<close> and while
  \<^verbatim>\<open>wait_for_load_state\<close> are pending.
\<close>

record page_script =
  new_page_raises :: "exn option"
  route_raises :: "exn option"
  during_goto :: "response list"
  goto_raises :: "exn option"
  during_wait :: "response list"
  wait_raises :: "exn option"
  close_raises :: "exn option"

text \<open>A session in which every call succeeds and no response arrives.\<close>

definition calm :: page_script where
  "calm = \<lparr>new_page_raises = None, route_raises = None, during_goto = [], goto_raises = None,
            during_wait = [], wait_raises = None, close_raises = None\<rparr>"

text \<open>
  Playwright runs the handler for each response as a task of its own: what the handler
  raises does not reach \<^verbatim>\<open>process_page\<close>.
\<close>

fun on_responses :: "response list \<Rightarrow> crawler \<Rightarrow> crawler" where
  "on_responses [] st = st"
| "on_responses (rs # rss) st = on_responses rss (snd (response_url rs st))"

text \<open>The body of the \<^verbatim>\<open>try\<close> of \<^verbatim>\<open>process_page\<close>.\<close>

definition navigate :: "page_script \<Rightarrow> crawler \<Rightarrow> exn option \<times> crawler" where
  "navigate ps st =
     (case route_raises ps of
        Some e \<Rightarrow> (Some e, st)
      | None \<Rightarrow>
          (let st1 = on_responses (during_goto ps) st in
           case goto_raises ps of
             Some e \<Rightarrow> (Some e, st1)
           | None \<Rightarrow>
               (let st2 = on_responses (during_wait ps) st1 in
                case wait_raises ps of
                  Some e \<Rightarrow> (Some e, st2)
                | None \<Rightarrow> (None, st2))))"

text \<open>The first exception that the calls inside the \<^verbatim>\<open>try\<close> raise, if any.\<close>

definition navigation_error :: "page_script \<Rightarrow> exn option" where
  "navigation_error ps =
     (case route_raises ps of
        Some e \<Rightarrow> Some e
      | None \<Rightarrow> (case goto_raises ps of Some e \<Rightarrow> Some e | None \<Rightarrow> wait_raises ps))"

text \<open>
  \<^verbatim>\<open>process_page\<close>: the page is opened before the \<^verbatim>\<open>try\<close>; the \<^verbatim>\<open>finally\<close> closes it,
  and an exception of \<^verbatim>\<open>close\<close> replaces the pending one.
\<close>

definition process_page :: "string \<Rightarrow> page_script \<Rightarrow> crawler \<Rightarrow> exn option \<times> crawler" where
  "process_page u ps st =
     (case new_page_raises ps of
        Some e \<Rightarrow> (Some e, st)
      | None \<Rightarrow>
          (case except_Exception (CrawlFailed u)
                  (navigate ps (st\<lparr>pages := pages st @ [Opened u]\<rparr>)) of
             (pending, st') \<Rightarrow>
               (case close_raises ps of
                  Some e \<Rightarrow> (Some e, st')
                | None \<Rightarrow> (pending, st'\<lparr>pages := pages st' @ [Closed u]\<rparr>))))"

section \<open>The scheduler\<close>

text \<open>
  The loop of \<^verbatim>\<open>run\<close>:
  \<^verbatim>\<open>for i in range(0, len(urls), k): [urls[i + j] for j in range(min(k, len(urls) - i))]\<close>.
\<close>

function batches_from :: "nat \<Rightarrow> nat \<Rightarrow> 'a list \<Rightarrow> 'a list list" where
  "batches_from k i urls =
     (if 0 < k \<and> i < length urls
      then map (\<lambda>j. urls ! (i + j)) [0..<min k (length urls - i)] # batches_from k (i + k) urls
      else [])"
  by pat_completeness auto
termination
  by (relation "measure (\<lambda>(k, i, urls). length urls - i)") auto

declare batches_from.simps [simp del]

text \<open>
  \<^verbatim>\<open>range\<close> refuses a step of zero and is empty for a negative step, since the stop
  \<^verbatim>\<open>len(urls)\<close> is not below the start. So the loop runs with a positive step only,
  which is the test \<open>0 < k\<close> that lets \<open>batches_from\<close> terminate.
\<close>

definition batches :: "int \<Rightarrow> 'a list \<Rightarrow> exn + 'a list list" where
  "batches num_pages urls =
     (if num_pages = 0 then Inl ValueError
      else if num_pages < 0 then Inr []
      else Inr (batches_from (nat num_pages) 0 urls))"

text \<open>
  The page events of one session and whether it returns without raising. Neither depends
  on the state the session starts in. The crawler \<open>idle\<close> is the one that
  \<^verbatim>\<open>__init__\<close> leaves: no row taken, the header of 95 bytes held back.
\<close>

definition idle :: crawler where
  "idle =
     \<lparr>crawler_file = \<lparr>written = [], held = 1, held_bytes = 95, buffer_size = 8192, capacity = None\<rparr>,
      logged = [], pages = []\<rparr>"

definition session_events :: "string \<times> page_script \<Rightarrow> page_event list" where
  "session_events s = pages (snd (process_page (fst s) (snd s) idle))"

definition session_returns :: "string \<times> page_script \<Rightarrow> bool" where
  "session_returns s = (fst (process_page (fst s) (snd s) idle) = None)"

text \<open>
  \<^verbatim>\<open>await asyncio.gather(*tasks)\<close> runs the sessions of a batch as tasks of one event
  loop: their events come in any interleaving that keeps the order of each session.
\<close>

inductive gather :: "'a list list \<Rightarrow> 'a list \<Rightarrow> bool" where
  gather_done: "concat ts = [] \<Longrightarrow> gather ts []"
| gather_step:
    "i < length ts \<Longrightarrow> ts ! i = e # rest \<Longrightarrow> gather (ts[i := rest]) tr
     \<Longrightarrow> gather ts (e # tr)"

text \<open>
  The loop over the batches: the next batch starts when \<^verbatim>\<open>gather\<close> has returned, that is
  when every session of the batch has returned. If a session raises, \<^verbatim>\<open>gather\<close> raises
  and no further batch starts; the sessions of the batch may then have been cut short.
\<close>

inductive run_batches :: "(string \<times> page_script) list list \<Rightarrow> page_event list \<Rightarrow> bool" where
  run_done: "run_batches [] []"
| run_next:
    "gather (map session_events b) t \<Longrightarrow> list_all session_returns b
     \<Longrightarrow> run_batches bs t' \<Longrightarrow> run_batches (b # bs) (t @ t')"
| run_raised:
    "gather (map session_events b) t \<Longrightarrow> \<not> list_all session_returns b
     \<Longrightarrow> prefix t0 t \<Longrightarrow> run_batches (b # bs) t0"

text \<open>
  The loop of \<^verbatim>\<open>run\<close> for a crawler with \<open>num_pages\<close> pages, on the targets \<open>urls\<close>;
  \<open>env i\<close> is what the browser does to the session of the \<open>i\<close>-th target. The
  relation holds the page events \<open>t\<close> that the loop can produce until it ends or raises.
\<close>

definition sessions :: "string list \<Rightarrow> (nat \<Rightarrow> page_script) \<Rightarrow> (string \<times> page_script) list" where
  "sessions urls env = zip urls (map env [0..<length urls])"

definition schedule ::
  "int \<Rightarrow> string list \<Rightarrow> (nat \<Rightarrow> page_script) \<Rightarrow> page_event list \<Rightarrow> bool" where
  "schedule num_pages urls env t =
     (case batches num_pages (sessions urls env) of
        Inl e \<Rightarrow> t = []
      | Inr bs \<Rightarrow> run_batches bs t)"

text \<open>
  \<^verbatim>\<open>run\<close>, from the point where the browser and its context are up: the URLs are made
  first, all of them; if that raises, nothing is crawled.
\<close>

definition run ::
  "(json \<Rightarrow> string) \<Rightarrow> string \<Rightarrow> json \<Rightarrow> int \<Rightarrow> (nat \<Rightarrow> page_script)
     \<Rightarrow> page_event list \<Rightarrow> bool" where
  "run repr crawler_url grid_data num_pages env t =
     (case crawl_urls repr crawler_url grid_data of
        Inl e \<Rightarrow> t = []
      | Inr urls \<Rightarrow> schedule num_pages urls env t)"


text \<open>The number of pages open after the events \<open>t\<close>.\<close>

fun open_pages :: "page_event list \<Rightarrow> int" where
  "open_pages [] = 0"
| "open_pages (Opened u # t) = open_pages t + 1"
| "open_pages (Closed u # t) = open_pages t - 1"

text \<open>What one event adds to the number of open pages, and to the number of pages opened.\<close>

fun delta :: "page_event \<Rightarrow> int" where
  "delta (Opened u) = 1"
| "delta (Closed u) = - 1"

fun opens_page :: "page_event \<Rightarrow> int" where
  "opens_page (Opened u) = 1"
| "opens_page (Closed u) = 0"

section \<open>Sample inputs\<close>

text \<open>
  A response of the 3D endpoint with the body
  \<^verbatim>\<open>{"result":{"objects":[{"id":"a"},{"id":"b"}]}}\<close>, and the row that the writer makes
  of an object that has only an \<^verbatim>\<open>id\<close>.
\<close>

definition two_objects :: response where
  "two_objects =
     \<lparr>url = ''https://h/api?mode=3d'',
      json_body = Inr (JObj [(''result'', JObj [(''objects'',
                    JArr [JObj [(''id'', JStr ''a'')], JObj [(''id'', JStr ''b'')]])])])\<rparr>"

definition id_row :: "string \<Rightarrow> json list" where
  "id_row i =
     [JStr [], JStr [], JStr [], JStr [], JStr i, JStr [], JStr [], JStr [], JStr [], JStr [],
      JStr [], JStr [], JStr []]"






text \<open>
  Five targets for a crawler with two pages, and one order in which their pages can be
  opened and closed.
\<close>

definition five_urls :: "string list" where
  "five_urls = [''u1'', ''u2'', ''u3'', ''u4'', ''u5'']"

definition five_trace :: "page_event list" where
  "five_trace =
     [Opened ''u1'', Opened ''u2'', Closed ''u2'', Closed ''u1'',
      Opened ''u3'', Opened ''u4'', Closed ''u3'', Closed ''u4'',
      Opened ''u5'', Closed ''u5'']"

section \<open>Facts about strings\<close>





lemma occurrences_no_head:
  "sub = h # rest \<Longrightarrow> h \<notin> set xs \<Longrightarrow> occurrences sub xs = 0"
  by (induction xs) (auto simp: prefix_Cons)

lemma prefix_append_sep:
  assumes "c \<notin> set sub"
  shows "prefix sub (xs @ c # ys) = prefix sub xs"
proof
  assume "prefix sub (xs @ c # ys)"
  then consider "prefix sub xs" | us where "sub = xs @ us" "prefix us (c # ys)"
    by (auto simp: prefix_append)
  then show "prefix sub xs"
  proof cases
    case 1
    then show ?thesis .
  next
    case 2
    with assms have "us = []" by (auto simp: prefix_Cons)
    with 2 show ?thesis by simp
  qed
next
  assume "prefix sub xs"
  then show "prefix sub (xs @ c # ys)" by (simp add: prefix_prefix)
qed

lemma occurrences_append_sep:
  assumes "sub \<noteq> []" "c \<notin> set sub"
  shows "occurrences sub (xs @ c # ys) = occurrences sub xs + occurrences sub ys"
proof (induction xs)
  case Nil
  from assms have "\<not> prefix sub (c # ys)" by (auto simp: prefix_Cons)
  with assms show ?case by simp
next
  case (Cons x xs)
  have "prefix sub ((x # xs) @ c # ys) = prefix sub (x # xs)"
    using assms(2) by (rule prefix_append_sep)
  with Cons show ?case by simp
qed

lemma digit_char_digit: "d < 10 \<Longrightarrow> digit_char d \<in> set ''0123456789''"
proof -
  assume "d < 10"
  then have "d \<in> {0,1,2,3,4,5,6,7,8,9}" by auto
  then show ?thesis by (auto simp: digit_char_def)
qed

lemma str_nat_digits: "set (str_nat n) \<subseteq> set ''0123456789''"
proof (induction n rule: str_nat.induct)
  case (1 n)
  show ?case
  proof (cases "n < 10")
    case True
    then show ?thesis using digit_char_digit [of n] by (subst str_nat.simps) simp
  next
    case False
    have "n mod 10 < 10" by simp
    from digit_char_digit [OF this] 1 False show ?thesis
      by (subst str_nat.simps) simp
  qed
qed

lemma numeric_no_c: "numeric v \<Longrightarrow> CHR ''c'' \<notin> set (py_str repr v)"
proof (cases v)
  case (JInt i)
  have "CHR ''c'' \<notin> set (str_nat m)" for m
    using str_nat_digits [of m] by auto
  then show ?thesis using JInt by (simp add: str_int_def)
next
  case (JFloat r)
  assume "numeric v"
  then show ?thesis using JFloat by auto
qed auto


section \<open>URL synthesis: results\<close>

lemma dict_get_JObj:
  "dict_get (JObj items) k dflt = Inr (case map_of items k of None \<Rightarrow> dflt | Some v \<Rightarrow> v)"
  by (simp add: dict_get_def)

lemma generate_url_properties:
  assumes "map_of items ''properties'' = Some (JObj props)"
  shows "generate_url repr crawler_url (JObj items) =
           Inr (crawler_url @ ''?camera=''
                @ py_str repr (case map_of props ''lat'' of None \<Rightarrow> JNull | Some v \<Rightarrow> v) @ '',''
                @ py_str repr (case map_of props ''lng'' of None \<Rightarrow> JNull | Some v \<Rightarrow> v)
                @ '',19.00,0.0,0.0,d'')"
  using assms by (simp add: generate_url_def and_then_def dict_get_JObj zoom_def)

lemma occurrences_camera:
  assumes "CHR ''c'' \<notin> set lat" "CHR ''c'' \<notin> set lng"
  shows "occurrences ''camera='' (crawler_url @ ''?camera='' @ lat @ '','' @ lng @ '',19.00,0.0,0.0,d'')
         = occurrences ''camera='' crawler_url + 1"
proof -
  let ?tail = "''amera='' @ lat @ '','' @ lng @ '',19.00,0.0,0.0,d''"
  have "CHR ''c'' \<notin> set ?tail" using assms by simp
  then have tail: "occurrences ''camera='' ?tail = 0"
    by (rule occurrences_no_head [OF refl])
  have "occurrences ''camera='' (crawler_url @ CHR ''?'' # (CHR ''c'' # ?tail))
        = occurrences ''camera='' crawler_url + occurrences ''camera='' (CHR ''c'' # ?tail)"
    by (rule occurrences_append_sep) simp_all
  also have "occurrences ''camera='' (CHR ''c'' # ?tail) = 1 + occurrences ''camera='' ?tail"
    by simp
  finally show ?thesis using tail by simp
qed


lemma generate_url_total: "has_properties feature \<Longrightarrow> \<exists>u. generate_url repr crawler_url feature = Inr u"
  by (cases feature) (auto split: option.splits json.splits dest: generate_url_properties)

lemma generate_url_AttributeError:
  "\<not> has_properties feature \<Longrightarrow> generate_url repr crawler_url feature = Inl AttributeError"
  by (cases feature)
     (auto split: option.splits json.splits simp: generate_url_def and_then_def dict_get_def)


lemma comprehension_Inr: "(comprehension f xs = Inr ys) = (map f xs = map Inr ys)"
proof (induction xs arbitrary: ys)
  case Nil
  then show ?case by auto
next
  case (Cons a xs)
  show ?case
  proof (cases ys)
    case Nil
    then show ?thesis by (auto split: sum.splits)
  next
    case (Cons y ys')
    then show ?thesis using Cons.IH [of ys'] by (auto split: sum.splits)
  qed
qed

lemma comprehension_generate_url_ok:
  "list_all has_properties fs \<Longrightarrow>
     \<exists>urls. comprehension (generate_url repr U) fs = Inr urls \<and> length urls = length fs"
proof (induction fs)
  case Nil
  then show ?case by simp
next
  case (Cons a fs)
  then obtain urls where "comprehension (generate_url repr U) fs = Inr urls" "length urls = length fs"
    by auto
  moreover from Cons.prems obtain u where "generate_url repr U a = Inr u"
    using generate_url_total [of a repr U] by auto
  ultimately show ?case by simp
qed

lemma comprehension_generate_url_raises:
  "\<not> list_all has_properties fs \<Longrightarrow> comprehension (generate_url repr U) fs = Inl AttributeError"
proof (induction fs)
  case Nil
  then show ?case by simp
next
  case (Cons a fs)
  show ?case
  proof (cases "has_properties a")
    case True
    then obtain u where "generate_url repr U a = Inr u"
      using generate_url_total [of a repr U] by auto
    moreover from True Cons have "comprehension (generate_url repr U) fs = Inl AttributeError"
      by simp
    ultimately show ?thesis by simp
  next
    case False
    then show ?thesis by (simp add: generate_url_AttributeError)
  qed
qed


lemma crawl_urls_features:
  "map_of grid ''features'' = Some (JArr features) \<Longrightarrow>
     crawl_urls repr U (JObj grid) = comprehension (generate_url repr U) features"
  by (simp add: crawl_urls_def and_then_def dict_get_def)

text \<open>
  C3, as the code has it: for a feature whose \<^verbatim>\<open>properties\<close> hold a numeric \<^verbatim>\<open>lat\<close>
  and \<^verbatim>\<open>lng\<close>, \<^verbatim>\<open>generate_url\<close> returns the base endpoint followed by
  \<^verbatim>\<open>?camera={lat},{lng},19.00,0.0,0.0,d\<close>. The result is a function of the feature and
  of the configured base alone. The query that is appended contains \<^verbatim>\<open>camera=\<close> exactly
  once, followed by the latitude, the longitude and the fixed zoom token in that order, so
  that the URL has exactly one \<^verbatim>\<open>camera=\<close> more than the base endpoint has: it
  contains exactly one when the base endpoint contains none.
\<close>

theorem generate_url_numeric:
  assumes "map_of items ''properties'' = Some (JObj props)"
    and "map_of props ''lat'' = Some lat" and "map_of props ''lng'' = Some lng"
    and "numeric lat" and "numeric lng"
  shows "generate_url repr crawler_url (JObj items)
           = Inr (crawler_url @ ''?camera='' @ py_str repr lat @ '','' @ py_str repr lng
                    @ '','' @ zoom @ '',0.0,0.0,d'')
         \<and> occurrences ''camera=''
               (''?camera='' @ py_str repr lat @ '','' @ py_str repr lng @ '','' @ zoom
                  @ '',0.0,0.0,d'') = 1
         \<and> occurrences ''camera=''
               (crawler_url @ ''?camera='' @ py_str repr lat @ '','' @ py_str repr lng
                  @ '','' @ zoom @ '',0.0,0.0,d'')
             = occurrences ''camera='' crawler_url + 1
         \<and> (occurrences ''camera='' crawler_url = 0 \<longrightarrow>
              occurrences ''camera=''
                (crawler_url @ ''?camera='' @ py_str repr lat @ '','' @ py_str repr lng
                   @ '','' @ zoom @ '',0.0,0.0,d'') = 1)"
proof -
  note c = numeric_no_c [OF assms(4), of repr] numeric_no_c [OF assms(5), of repr]
  show ?thesis
    using assms(2,3) generate_url_properties [OF assms(1), of repr crawler_url]
      occurrences_camera [OF c, of crawler_url] occurrences_camera [OF c, of "[]"]
    by (simp add: zoom_def)
qed

theorem generate_url_numeric_witness:
  "numeric (JFloat ''10.762622'') \<and> numeric (JInt 106)
   \<and> occurrences ''camera='' ''https://maps.example/3d'' = 0
   \<and> generate_url (\<lambda>v. []) ''https://maps.example/3d''
        (JObj [(''type'', JStr ''Feature''),
               (''properties'', JObj [(''lat'', JFloat ''10.762622''), (''lng'', JInt 106)])])
      = Inr ''https://maps.example/3d?camera=10.762622,106,19.00,0.0,0.0,d''
   \<and> occurrences ''camera='' ''https://maps.example/3d?camera=10.762622,106,19.00,0.0,0.0,d'' = 1"
proof -
  have n: "numeric (JFloat ''10.762622'')" "numeric (JInt 106)" by simp_all
  have s: "str_int 106 = ''106''" by code_simp
  have b: "occurrences ''camera='' ''https://maps.example/3d'' = 0" by simp
  show ?thesis
    using n b generate_url_numeric [of
        "[(''type'', JStr ''Feature''),
          (''properties'', JObj [(''lat'', JFloat ''10.762622''), (''lng'', JInt 106)])]"
        "[(''lat'', JFloat ''10.762622''), (''lng'', JInt 106)]"
        "JFloat ''10.762622''" "JInt 106" "\<lambda>v. []" "''https://maps.example/3d''"]
    by (simp add: zoom_def s)
qed

text \<open>
  The claim has exactly one \<^verbatim>\<open>camera=\<close> in the URL whatever the base endpoint. The
  base is printed as it is configured: one that holds a \<^verbatim>\<open>camera=\<close> of its own gives a
  URL with two.
\<close>

theorem generate_url_base_camera_counterexample:
  "generate_url (\<lambda>v. []) ''https://h/3d?camera=0''
     (JObj [(''properties'', JObj [(''lat'', JInt 1), (''lng'', JInt 2)])])
     = Inr ''https://h/3d?camera=0?camera=1,2,19.00,0.0,0.0,d''
   \<and> occurrences ''camera='' ''https://h/3d?camera=0?camera=1,2,19.00,0.0,0.0,d'' = 2"
  by code_simp

text \<open>
  C8, as the code has it: a feature whose \<^verbatim>\<open>properties\<close> lack \<^verbatim>\<open>lat\<close> or \<^verbatim>\<open>lng\<close> is
  neither rejected nor skipped. \<^verbatim>\<open>generate_url\<close> prints the missing value as
  \<^verbatim>\<open>None\<close>, and when every feature of the grid has a \<^verbatim>\<open>properties\<close> dict the run gets
  one URL for each feature, in order. A feature without a \<^verbatim>\<open>properties\<close> dict makes
  \<^verbatim>\<open>generate_url\<close> raise \<^verbatim>\<open>AttributeError\<close>, which leaves the list comprehension of
  \<^verbatim>\<open>run\<close>: then no page is opened at all.
\<close>

theorem missing_coordinate_not_skipped:
  assumes "map_of grid ''features'' = Some (JArr features)"
  shows "(map_of items ''properties'' = Some (JObj props) \<and> map_of props ''lat'' = None \<longrightarrow>
            generate_url repr U (JObj items)
              = Inr (U @ ''?camera=None,''
                     @ py_str repr (case map_of props ''lng'' of None \<Rightarrow> JNull | Some v \<Rightarrow> v)
                     @ '','' @ zoom @ '',0.0,0.0,d''))
       \<and> (map_of items ''properties'' = Some (JObj props) \<and> map_of props ''lng'' = None \<longrightarrow>
            generate_url repr U (JObj items)
              = Inr (U @ ''?camera=''
                     @ py_str repr (case map_of props ''lat'' of None \<Rightarrow> JNull | Some v \<Rightarrow> v)
                     @ '',None,'' @ zoom @ '',0.0,0.0,d''))
       \<and> (list_all has_properties features \<longrightarrow>
            (\<exists>urls. crawl_urls repr U (JObj grid) = Inr urls
                    \<and> map (generate_url repr U) features = map Inr urls))
       \<and> (\<not> list_all has_properties features \<longrightarrow>
            crawl_urls repr U (JObj grid) = Inl AttributeError
            \<and> (\<forall>t. run repr U (JObj grid) num_pages env t \<longrightarrow> t = []))"
proof (intro conjI impI)
  assume "map_of items ''properties'' = Some (JObj props) \<and> map_of props ''lat'' = None"
  then show "generate_url repr U (JObj items)
              = Inr (U @ ''?camera=None,''
                     @ py_str repr (case map_of props ''lng'' of None \<Rightarrow> JNull | Some v \<Rightarrow> v)
                     @ '','' @ zoom @ '',0.0,0.0,d'')"
    using generate_url_properties [of items props repr U] by (simp add: zoom_def)
next
  assume "map_of items ''properties'' = Some (JObj props) \<and> map_of props ''lng'' = None"
  then show "generate_url repr U (JObj items)
              = Inr (U @ ''?camera=''
                     @ py_str repr (case map_of props ''lat'' of None \<Rightarrow> JNull | Some v \<Rightarrow> v)
                     @ '',None,'' @ zoom @ '',0.0,0.0,d'')"
    using generate_url_properties [of items props repr U] by (simp add: zoom_def)
next
  assume "list_all has_properties features"
  from comprehension_generate_url_ok [OF this, of repr U]
  show "\<exists>urls. crawl_urls repr U (JObj grid) = Inr urls
                    \<and> map (generate_url repr U) features = map Inr urls"
    by (auto simp: crawl_urls_features [OF assms] comprehension_Inr)
next
  assume "\<not> list_all has_properties features"
  from comprehension_generate_url_raises [OF this, of repr U]
  show "crawl_urls repr U (JObj grid) = Inl AttributeError"
    by (simp add: crawl_urls_features [OF assms])
  then show "\<forall>t. run repr U (JObj grid) num_pages env t \<longrightarrow> t = []"
    by (simp add: run_def)
qed

theorem missing_coordinate_not_skipped_witness:
  "crawl_urls (\<lambda>v. []) ''https://h/3d''
     (JObj [(''type'', JStr ''FeatureCollection''),
            (''features'', JArr
               [JObj [(''properties'', JObj [(''lng'', JInt 2)])],
                JObj [(''properties'', JObj [(''lat'', JInt 1)])]])])
     = Inr [''https://h/3d?camera=None,2,19.00,0.0,0.0,d'',
            ''https://h/3d?camera=1,None,19.00,0.0,0.0,d'']
   \<and> crawl_urls (\<lambda>v. []) ''https://h/3d''
       (JObj [(''features'', JArr
                 [JObj [(''properties'', JObj [(''lat'', JInt 1), (''lng'', JInt 2)])],
                  JObj [(''type'', JStr ''Feature'')]])])
       = Inl AttributeError
   \<and> \<not> run (\<lambda>v. []) ''https://h/3d''
         (JObj [(''features'', JArr
                   [JObj [(''properties'', JObj [(''lat'', JInt 1), (''lng'', JInt 2)])],
                    JObj [(''type'', JStr ''Feature'')]])])
         3 (\<lambda>i. calm) [Opened ''https://h/3d?camera=1,2,19.00,0.0,0.0,d'']"
proof -
  let ?lat = "JObj [(''properties'', JObj [(''lng'', JInt 2)])]"
  let ?lng = "JObj [(''properties'', JObj [(''lat'', JInt 1)])]"
  let ?good = "JObj [(''properties'', JObj [(''lat'', JInt 1), (''lng'', JInt 2)])]"
  let ?bad = "JObj [(''type'', JStr ''Feature'')]"
  let ?g1 = "[(''type'', JStr ''FeatureCollection''), (''features'', JArr [?lat, ?lng])]"
  let ?g2 = "[(''features'', JArr [?good, ?bad])]"
  have one: "str_int 1 = ''1''" and two: "str_int 2 = ''2''"
    by code_simp+
  have f1: "map_of ?g1 ''features'' = Some (JArr [?lat, ?lng])"
    and f2: "map_of ?g2 ''features'' = Some (JArr [?good, ?bad])"
    by simp_all
  have ok: "list_all has_properties [?lat, ?lng]" and bad: "\<not> list_all has_properties [?good, ?bad]"
    by simp_all
  from ok
    missing_coordinate_not_skipped [OF f1, of "[(''properties'', JObj [(''lng'', JInt 2)])]"
      "[(''lng'', JInt 2)]" "\<lambda>v. []" "''https://h/3d''" 3 "\<lambda>i. calm"]
    missing_coordinate_not_skipped [OF f1, of "[(''properties'', JObj [(''lat'', JInt 1)])]"
      "[(''lat'', JInt 1)]" "\<lambda>v. []" "''https://h/3d''" 3 "\<lambda>i. calm"]
  have "crawl_urls (\<lambda>v. []) ''https://h/3d'' (JObj ?g1)
          = Inr [''https://h/3d?camera=None,2,19.00,0.0,0.0,d'',
                 ''https://h/3d?camera=1,None,19.00,0.0,0.0,d'']"
    by (auto simp: zoom_def one two)
  moreover from bad
    missing_coordinate_not_skipped [OF f2, of "[]" "[]" "\<lambda>v. []" "''https://h/3d''" 3 "\<lambda>i. calm"]
  have "crawl_urls (\<lambda>v. []) ''https://h/3d'' (JObj ?g2) = Inl AttributeError"
    and "\<not> run (\<lambda>v. []) ''https://h/3d'' (JObj ?g2) 3 (\<lambda>i. calm)
             [Opened ''https://h/3d?camera=1,2,19.00,0.0,0.0,d'']"
    by auto
  ultimately show ?thesis by simp
qed

text \<open>
  The claim fails on a grid whose first feature has no \<^verbatim>\<open>lat\<close>: URL synthesis does not
  fail, and the feature keeps its place among the crawl targets.
\<close>

theorem missing_coordinate_counterexample:
  "crawl_urls (\<lambda>v. []) ''https://h/3d''
     (JObj [(''type'', JStr ''FeatureCollection''),
            (''features'', JArr
               [JObj [(''properties'', JObj [(''lng'', JInt 2)])],
                JObj [(''properties'', JObj [(''lat'', JInt 1), (''lng'', JInt 2)])]])])
   = Inr [''https://h/3d?camera=None,2,19.00,0.0,0.0,d'',
          ''https://h/3d?camera=1,2,19.00,0.0,0.0,d'']"
  by code_simp

text \<open>
  C9, as the code has it: an empty base endpoint changes nothing in URL synthesis, which
  has no log to write to. For a feature with a \<^verbatim>\<open>properties\<close> dict it returns the text
  \<^verbatim>\<open>?camera={lat},{lng},19.00,0.0,0.0,d\<close>, which is what any other base is followed by;
  for a feature without one it raises \<^verbatim>\<open>AttributeError\<close>, as it does with any other base.
\<close>

theorem generate_url_unset_base:
  "(has_properties feature \<longrightarrow>
      (\<exists>q. generate_url repr [] feature = Inr q \<and> prefix ''?camera='' q
           \<and> generate_url repr crawler_url feature = Inr (crawler_url @ q)))
   \<and> (\<not> has_properties feature \<longrightarrow>
        generate_url repr [] feature = Inl AttributeError
        \<and> generate_url repr crawler_url feature = Inl AttributeError)"
proof (intro conjI impI)
  assume "has_properties feature"
  then obtain items props where f: "feature = JObj items" "map_of items ''properties'' = Some (JObj props)"
    by (cases feature) (auto split: option.splits json.splits)
  show "\<exists>q. generate_url repr [] feature = Inr q \<and> prefix ''?camera='' q
           \<and> generate_url repr crawler_url feature = Inr (crawler_url @ q)"
    using generate_url_properties [OF f(2), of repr "[]"]
      generate_url_properties [OF f(2), of repr crawler_url] f(1)
    by simp
qed (simp_all add: generate_url_AttributeError)

theorem generate_url_unset_base_witness:
  "has_properties (JObj [(''properties'', JObj [(''lat'', JInt 1), (''lng'', JInt 2)])])
   \<and> generate_url (\<lambda>v. []) [] (JObj [(''properties'', JObj [(''lat'', JInt 1), (''lng'', JInt 2)])])
       = Inr ''?camera=1,2,19.00,0.0,0.0,d''
   \<and> generate_url (\<lambda>v. []) ''https://h/3d'' (JObj [(''properties'', JObj [(''lat'', JInt 1), (''lng'', JInt 2)])])
       = Inr ''https://h/3d?camera=1,2,19.00,0.0,0.0,d''
   \<and> \<not> has_properties (JObj [(''type'', JStr ''Feature'')])
   \<and> generate_url (\<lambda>v. []) [] (JObj [(''type'', JStr ''Feature'')]) = Inl AttributeError"
proof -
  have h: "has_properties (JObj [(''properties'', JObj [(''lat'', JInt 1), (''lng'', JInt 2)])])"
    by simp
  have n: "\<not> has_properties (JObj [(''type'', JStr ''Feature'')])"
    by simp
  have q: "generate_url (\<lambda>v. []) [] (JObj [(''properties'', JObj [(''lat'', JInt 1), (''lng'', JInt 2)])])
       = Inr ''?camera=1,2,19.00,0.0,0.0,d''"
    by code_simp
  show ?thesis
    using h n q
      generate_url_unset_base [of "JObj [(''properties'', JObj [(''lat'', JInt 1), (''lng'', JInt 2)])]"
        "\<lambda>v. []" "''https://h/3d''"]
      generate_url_unset_base [of "JObj [(''type'', JStr ''Feature'')]" "\<lambda>v. []" "[]"]
    by simp
qed

text \<open>With the base unset, the result for an ordinary feature is not empty.\<close>

theorem generate_url_unset_base_counterexample:
  "generate_url (\<lambda>v. []) []
     (JObj [(''type'', JStr ''Feature''),
            (''properties'', JObj [(''lat'', JInt 1), (''lng'', JInt 2)])])
   = Inr ''?camera=1,2,19.00,0.0,0.0,d''"
  by code_simp

section \<open>The request filter: results\<close>





section \<open>The record sink: facts\<close>

lemma append_rows_Nil: "append_rows f [] = f"
  by (simp add: append_rows_def)

lemma append_rows_single: "append_rows f [row] = take_row f row"
  by (simp add: append_rows_def)

lemma append_rows_append:
  "append_rows (append_rows f xs) ys = append_rows f (xs @ ys)"
  by (simp add: append_rows_def)

lemma has_room_mono: "has_room f k \<Longrightarrow> j \<le> k \<Longrightarrow> has_room f j"
  by (auto simp: has_room_def split: option.splits)

lemma append_rows_Cons:
  "has_room f (Suc k) \<Longrightarrow> file_write f row = Inr (append_rows f [row])"
  using has_room_mono [of f "Suc k" 1] by (simp add: file_write_def append_rows_single)

lemma has_room_take_row: "has_room f (Suc k) \<Longrightarrow> has_room (take_row f row) k"
  by (auto simp: has_room_def take_row_def split: option.splits)

lemma has_room_append_rows:
  "has_room f (length xs + k) \<Longrightarrow> has_room (append_rows f xs) k"
proof (induction xs arbitrary: f)
  case Nil
  then show ?case by (simp add: append_rows_Nil)
next
  case (Cons x xs)
  from Cons.prems have "has_room (take_row f x) (length xs + k)"
    by (simp add: has_room_take_row)
  from Cons.IH [OF this] show ?case
    by (simp add: append_rows_def)
qed

lemma written_take_row: "written (take_row f row) = written f @ [row]"
  by (simp add: take_row_def)

lemma written_append_rows: "written (append_rows f rows) = written f @ rows"
proof (induction rows arbitrary: f)
  case Nil
  then show ?case by (simp add: append_rows_Nil)
next
  case (Cons r rows)
  from Cons [of "take_row f r"] show ?case
    by (simp add: append_rows_def written_take_row)
qed

lemma write_each_all:
  "map (dict_to_list fns) os = map Inr rows \<Longrightarrow> has_room f (length os)
   \<Longrightarrow> write_each fns f os = (None, append_rows f rows)"
proof (induction os arbitrary: f rows)
  case Nil
  then show ?case by (simp add: append_rows_Nil)
next
  case (Cons a os)
  from Cons.prems(1) obtain r rs where rows: "rows = r # rs" "dict_to_list fns a = Inr r"
    "map (dict_to_list fns) os = map Inr rs"
    by (cases rows) auto
  from Cons.prems(2) have w: "file_write f r = Inr (append_rows f [r])"
    by (simp add: append_rows_Cons)
  from Cons.prems(2) have "has_room (append_rows f [r]) (length os)"
    using has_room_append_rows [of f "[r]" "length os"] by simp
  from Cons.IH [OF rows(3) this] rows w show ?case
    by (simp add: append_rows_append)
qed

















lemma dict_to_list_Exception: "dict_to_list fns v = Inl e \<Longrightarrow> is_Exception e"
  by (cases v) (auto split: if_splits)

lemma file_write_Exception: "file_write f row = Inl (e, f') \<Longrightarrow> is_Exception e"
  by (auto simp: file_write_def split: if_splits)

lemma write_each_Exception: "write_each fns f os = (Some e, f') \<Longrightarrow> is_Exception e"
  by (induction os arbitrary: f)
     (auto split: sum.splits prod.splits dest: dict_to_list_Exception file_write_Exception)

section \<open>The response extractor: results\<close>

lemma writerows_JArr: "writerows fns f (JArr os) = write_each fns f os"
  by (simp add: writerows_def)








lemma response_url_list:
  assumes "str_in ''mode=3d'' (url rs)" "json_body rs = Inr res" "result_objects res = Inr (JArr os)"
  shows "response_url rs st =
           (case write_each fieldnames (crawler_file st) os of
              (None, f) \<Rightarrow>
                (None, st\<lparr>crawler_file := f, logged := logged st @ [Crawled (url rs) (JArr os)]\<rparr>)
            | (Some e, f) \<Rightarrow>
                (None, st\<lparr>crawler_file := f, logged := logged st @ [ProcessFailed (url rs) e]\<rparr>))"
proof (cases "write_each fieldnames (crawler_file st) os")
  case (Pair r f)
  show ?thesis
  proof (cases r)
    case None
    with Pair assms show ?thesis
      by (cases os) (simp_all add: response_url_def extract_objects_def except_Exception_def
          writerows_JArr)
  next
    case (Some e)
    with Pair have "is_Exception e" "os \<noteq> []"
      by (auto dest: write_each_Exception)
    with Some Pair assms show ?thesis
      by (simp add: response_url_def extract_objects_def except_Exception_def writerows_JArr)
  qed
qed

lemma response_url_all_rows:
  assumes "str_in ''mode=3d'' (url rs)" "json_body rs = Inr res" "result_objects res = Inr (JArr os)"
    "map (dict_to_list fieldnames) os = map Inr rows" "has_room (crawler_file st) (length os)"
  shows "response_url rs st =
           (None, st\<lparr>crawler_file := append_rows (crawler_file st) rows,
                       logged := logged st @ [Crawled (url rs) (JArr os)]\<rparr>)"
  by (simp add: response_url_list [OF assms(1-3)] write_each_all [OF assms(4,5)])







lemma result_objects_cases:
  "result_objects (JObj body) =
     (case map_of body ''result'' of
        None \<Rightarrow> Inr (JArr [])
      | Some (JObj result) \<Rightarrow>
          Inr (case map_of result ''objects'' of None \<Rightarrow> JArr [] | Some objects \<Rightarrow> objects)
      | Some _ \<Rightarrow> Inl AttributeError)"
  by (simp add: result_objects_def and_then_def dict_get_def split: option.splits json.splits)

lemma dict_to_list_known:
  "set (map fst items) \<subseteq> set fns \<Longrightarrow>
     dict_to_list fns (JObj items)
       = Inr (map (\<lambda>key. case map_of items key of None \<Rightarrow> JStr [] | Some v \<Rightarrow> v) fns)"
  by (auto simp: filter_empty_conv)



lemma marker: "str_in ''mode=3d'' ''https://h/api?mode=3d''"
  by code_simp

lemma two_rows:
  "map (dict_to_list fieldnames) [JObj [(''id'', JStr ''a'')], JObj [(''id'', JStr ''b'')]]
     = map Inr [id_row ''a'', id_row ''b'']"
  by code_simp




text \<open>
  C1, as the code has it: a response whose URL lacks \<^verbatim>\<open>mode=3d\<close> changes nothing. For a
  response with the marker whose parsed body has \<^verbatim>\<open>result.objects = [o1, ..., on]\<close>, the
  handler appends exactly one row for each element, in the order of the array, provided
  that the writer accepts each element (a dict whose keys all stand in the header) and the
  device takes the rows. The row of an element holds, for each of the thirteen header
  fields in turn, the element's value, and the empty string where the element has no such
  key. When \<^verbatim>\<open>result\<close> or \<^verbatim>\<open>objects\<close> is absent, the objects are the empty list,
  so nothing is appended.
\<close>

theorem response_url_rows:
  "(\<not> str_in ''mode=3d'' (url rs) \<longrightarrow> response_url rs st = (None, st))
   \<and> (str_in ''mode=3d'' (url rs) \<and> json_body rs = Inr res
        \<and> result_objects res = Inr (JArr os)
        \<and> map (dict_to_list fieldnames) os = map Inr rows
        \<and> has_room (crawler_file st) (length os) \<longrightarrow>
        response_url rs st =
          (None, st\<lparr>crawler_file := append_rows (crawler_file st) rows,
                      logged := logged st @ [Crawled (url rs) (JArr os)]\<rparr>)
        \<and> written (crawler_file (snd (response_url rs st))) = written (crawler_file st) @ rows
        \<and> length rows = length os)
   \<and> (set (map fst items) \<subseteq> set fieldnames \<longrightarrow>
        dict_to_list fieldnames (JObj items)
          = Inr (map (\<lambda>key. case map_of items key of None \<Rightarrow> JStr [] | Some v \<Rightarrow> v) fieldnames))
   \<and> (map_of body ''result'' = None \<longrightarrow> result_objects (JObj body) = Inr (JArr []))
   \<and> (map_of body ''result'' = Some (JObj result) \<and> map_of result ''objects'' = None \<longrightarrow>
        result_objects (JObj body) = Inr (JArr []))
   \<and> (map_of body ''result'' = Some (JObj result) \<and> map_of result ''objects'' = Some objects \<longrightarrow>
        result_objects (JObj body) = Inr objects)"
proof (intro conjI impI)
  assume a: "str_in ''mode=3d'' (url rs) \<and> json_body rs = Inr res
        \<and> result_objects res = Inr (JArr os)
        \<and> map (dict_to_list fieldnames) os = map Inr rows
        \<and> has_room (crawler_file st) (length os)"
  then show r: "response_url rs st =
          (None, st\<lparr>crawler_file := append_rows (crawler_file st) rows,
                      logged := logged st @ [Crawled (url rs) (JArr os)]\<rparr>)"
    by (simp add: response_url_all_rows)
  show "written (crawler_file (snd (response_url rs st))) = written (crawler_file st) @ rows"
    by (simp add: r written_append_rows)
  from a have "length (map (dict_to_list fieldnames) os) = length (map Inr rows :: (exn + json list) list)"
    by simp
  then show "length rows = length os" by simp
next
  assume "set (map fst items) \<subseteq> set fieldnames"
  then show "dict_to_list fieldnames (JObj items)
          = Inr (map (\<lambda>key. case map_of items key of None \<Rightarrow> JStr [] | Some v \<Rightarrow> v) fieldnames)"
    by (rule dict_to_list_known)
qed (simp_all add: response_url_def result_objects_cases)

theorem response_url_rows_witness:
  "written (crawler_file (snd (response_url two_objects idle))) = [id_row ''a'', id_row ''b'']
   \<and> response_url (two_objects\<lparr>url := ''https://h/tiles?mode=2d''\<rparr>) idle = (None, idle)
   \<and> dict_to_list fieldnames (JObj [(''id'', JStr ''a'')]) = Inr (id_row ''a'')
   \<and> result_objects (JObj [(''status'', JInt 0)]) = Inr (JArr [])
   \<and> result_objects (JObj [(''result'', JObj [(''total'', JInt 0)])]) = Inr (JArr [])
   \<and> result_objects (JObj [(''result'', JObj [(''objects'', JArr [])])]) = Inr (JArr [])"
proof -
  let ?os = "[JObj [(''id'', JStr ''a'')], JObj [(''id'', JStr ''b'')]]"
  let ?res = "JObj [(''result'', JObj [(''objects'', JArr ?os)])]"
  have m: "str_in ''mode=3d'' (url two_objects)"
    by (simp add: two_objects_def marker)
  have b: "json_body two_objects = Inr ?res"
    by (simp add: two_objects_def)
  have o: "result_objects ?res = Inr (JArr ?os)"
    by (simp add: result_objects_cases)
  have r: "has_room (crawler_file idle) (length ?os)"
    by (simp add: idle_def has_room_def)
  have n: "\<not> str_in ''mode=3d'' (url (two_objects\<lparr>url := ''https://h/tiles?mode=2d''\<rparr>))"
    by code_simp
  have w: "written (crawler_file idle) = []"
    by (simp add: idle_def)
  from m b o two_rows r
    response_url_rows [where rs = two_objects and st = idle and res = ?res and os = ?os
      and rows = "[id_row ''a'', id_row ''b'']"]
  have "written (crawler_file (snd (response_url two_objects idle)))
          = written (crawler_file idle) @ [id_row ''a'', id_row ''b'']"
    by blast
  then have "written (crawler_file (snd (response_url two_objects idle))) = [id_row ''a'', id_row ''b'']"
    by (simp only: w append_Nil)
  moreover from n
    response_url_rows [where rs = "two_objects\<lparr>url := ''https://h/tiles?mode=2d''\<rparr>" and st = idle]
  have "response_url (two_objects\<lparr>url := ''https://h/tiles?mode=2d''\<rparr>) idle = (None, idle)"
    by blast
  moreover have "set (map fst [(''id'', JStr ''a'')]) \<subseteq> set fieldnames"
    by (simp add: fieldnames_def)
  with response_url_rows [where items = "[(''id'', JStr ''a'')]"]
  have "dict_to_list fieldnames (JObj [(''id'', JStr ''a'')])
          = Inr (map (\<lambda>key. case map_of [(''id'', JStr ''a'')] key of
                             None \<Rightarrow> JStr [] | Some v \<Rightarrow> v) fieldnames)"
    by blast
  then have "dict_to_list fieldnames (JObj [(''id'', JStr ''a'')]) = Inr (id_row ''a'')"
    by (simp add: fieldnames_def id_row_def)
  moreover have "map_of [(''status'', JInt 0)] ''result'' = None"
    by simp
  with response_url_rows [where body = "[(''status'', JInt 0)]"]
  have "result_objects (JObj [(''status'', JInt 0)]) = Inr (JArr [])"
    by blast
  moreover have "map_of [(''result'', JObj [(''total'', JInt 0)])] ''result''
                   = Some (JObj [(''total'', JInt 0)])
                 \<and> map_of [(''total'', JInt 0)] ''objects'' = None"
    by simp
  with response_url_rows [where body = "[(''result'', JObj [(''total'', JInt 0)])]"
      and result = "[(''total'', JInt 0)]"]
  have "result_objects (JObj [(''result'', JObj [(''total'', JInt 0)])]) = Inr (JArr [])"
    by blast
  moreover have "map_of [(''result'', JObj [(''objects'', JArr [])])] ''result''
                   = Some (JObj [(''objects'', JArr [])])
                 \<and> map_of [(''objects'', JArr [])] ''objects'' = Some (JArr [])"
    by simp
  with response_url_rows [where body = "[(''result'', JObj [(''objects'', JArr [])])]"
      and result = "[(''objects'', JArr [])]" and objects = "JArr []"]
  have "result_objects (JObj [(''result'', JObj [(''objects'', JArr [])])]) = Inr (JArr [])"
    by blast
  ultimately show ?thesis by simp
qed

text \<open>
  The claim lets unknown fields through; the writer does not. With one object that has
  the key \<^verbatim>\<open>height\<close> the handler writes no row and logs the \<^verbatim>\<open>ValueError\<close>.
\<close>

theorem response_url_unknown_field_counterexample:
  "response_url
     \<lparr>url = ''https://h/api?mode=3d'',
      json_body = Inr (JObj [(''result'', JObj [(''objects'',
                    JArr [JObj [(''id'', JStr ''a''), (''height'', JInt 7)]])])])\<rparr>
     idle
   = (None, idle\<lparr>logged := [ProcessFailed ''https://h/api?mode=3d'' ValueError]\<rparr>)"
  by code_simp








section \<open>The page session: results\<close>

lemma extract_objects_pages: "pages (snd (extract_objects rs st)) = pages st"
  by (auto simp: extract_objects_def split: sum.splits option.splits prod.splits)

lemma except_Exception_pages: "pages (snd (except_Exception entry body)) = pages (snd body)"
  by (auto simp: except_Exception_def split: option.splits prod.splits)

lemma response_url_pages: "pages (snd (response_url rs st)) = pages st"
  by (simp add: response_url_def except_Exception_pages extract_objects_pages)

lemma on_responses_pages: "pages (on_responses rss st) = pages st"
  by (induction rss arbitrary: st) (simp_all add: response_url_pages)

lemma navigate_fst: "fst (navigate ps st) = navigation_error ps"
  by (simp add: navigate_def navigation_error_def Let_def split: option.splits)

lemma navigate_pages: "pages (snd (navigate ps st)) = pages st"
  by (simp add: navigate_def Let_def on_responses_pages split: option.splits)

lemma process_page_fst:
  "fst (process_page u ps st) =
     (case new_page_raises ps of
        Some e \<Rightarrow> Some e
      | None \<Rightarrow>
          (case close_raises ps of
             Some e \<Rightarrow> Some e
           | None \<Rightarrow>
               (case navigation_error ps of
                  None \<Rightarrow> None
                | Some e \<Rightarrow> if is_Exception e then None else Some e)))"
proof -
  obtain r st' where n: "navigate ps (st\<lparr>pages := pages st @ [Opened u]\<rparr>) = (r, st')"
    by (cases "navigate ps (st\<lparr>pages := pages st @ [Opened u]\<rparr>)")
  then have "r = navigation_error ps"
    using navigate_fst [of ps "st\<lparr>pages := pages st @ [Opened u]\<rparr>"] by simp
  with n show ?thesis
    by (simp add: process_page_def except_Exception_def split: option.splits)
qed

lemma process_page_pages:
  "pages (snd (process_page u ps st)) =
     pages st @
     (case new_page_raises ps of
        Some e \<Rightarrow> []
      | None \<Rightarrow> Opened u # (case close_raises ps of None \<Rightarrow> [Closed u] | Some e \<Rightarrow> []))"
proof -
  obtain r st' where n: "navigate ps (st\<lparr>pages := pages st @ [Opened u]\<rparr>) = (r, st')"
    by (cases "navigate ps (st\<lparr>pages := pages st @ [Opened u]\<rparr>)")
  then have "pages st' = pages st @ [Opened u]"
    using navigate_pages [of ps "st\<lparr>pages := pages st @ [Opened u]\<rparr>"] by simp
  with n show ?thesis
    by (simp add: process_page_def except_Exception_def split: option.splits)
qed





text \<open>
  C6, as the code has it: once the page is open, it is closed on every exit path, and an
  \<^verbatim>\<open>Exception\<close> raised by the route hook, the navigation or the wait is caught and
  logged, so that the session returns without an exception when \<^verbatim>\<open>close\<close> succeeds.
  \<^verbatim>\<open>new_page\<close> stands before the \<^verbatim>\<open>try\<close>: when it raises, the exception reaches the
  caller and no page was opened. An exception of \<^verbatim>\<open>close\<close> reaches the caller as well.
\<close>

theorem process_page_closes:
  "(new_page_raises ps = None \<and> close_raises ps = None \<longrightarrow>
      pages (snd (process_page u ps st)) = pages st @ [Opened u, Closed u])
   \<and> (new_page_raises ps = None \<and> close_raises ps = None
        \<and> (navigation_error ps = None \<or> (\<exists>e. navigation_error ps = Some e \<and> is_Exception e)) \<longrightarrow>
        fst (process_page u ps st) = None)
   \<and> (new_page_raises ps = None \<and> navigation_error ps = Some e \<and> is_Exception e \<longrightarrow>
        CrawlFailed u e \<in> set (logged (snd (process_page u ps st))))
   \<and> (new_page_raises ps = Some e \<longrightarrow> process_page u ps st = (Some e, st))
   \<and> (new_page_raises ps = None \<and> close_raises ps = Some e \<longrightarrow>
        fst (process_page u ps st) = Some e
        \<and> pages (snd (process_page u ps st)) = pages st @ [Opened u])"
proof (intro conjI impI)
  assume a: "new_page_raises ps = None \<and> navigation_error ps = Some e \<and> is_Exception e"
  obtain r st' where n: "navigate ps (st\<lparr>pages := pages st @ [Opened u]\<rparr>) = (r, st')"
    by (cases "navigate ps (st\<lparr>pages := pages st @ [Opened u]\<rparr>)")
  then have "r = navigation_error ps"
    using navigate_fst [of ps "st\<lparr>pages := pages st @ [Opened u]\<rparr>"] by simp
  with n a show "CrawlFailed u e \<in> set (logged (snd (process_page u ps st)))"
    by (simp add: process_page_def except_Exception_def split: option.splits)
next
  assume "new_page_raises ps = Some e"
  then show "process_page u ps st = (Some e, st)"
    by (simp add: process_page_def)
qed (auto simp: process_page_fst process_page_pages)

theorem process_page_closes_witness:
  "fst (process_page ''https://h/3d'' (calm\<lparr>goto_raises := Some PlaywrightError\<rparr>) idle) = None
   \<and> pages (snd (process_page ''https://h/3d'' (calm\<lparr>goto_raises := Some PlaywrightError\<rparr>) idle))
       = [Opened ''https://h/3d'', Closed ''https://h/3d'']
   \<and> CrawlFailed ''https://h/3d'' PlaywrightError
       \<in> set (logged (snd (process_page ''https://h/3d''
                              (calm\<lparr>goto_raises := Some PlaywrightError\<rparr>) idle)))
   \<and> process_page ''https://h/3d'' (calm\<lparr>new_page_raises := Some PlaywrightError\<rparr>) idle
       = (Some PlaywrightError, idle)
   \<and> fst (process_page ''https://h/3d'' (calm\<lparr>close_raises := Some PlaywrightError\<rparr>) idle)
       = Some PlaywrightError
   \<and> pages (snd (process_page ''https://h/3d'' (calm\<lparr>close_raises := Some PlaywrightError\<rparr>) idle))
       = [Opened ''https://h/3d'']"
proof -
  let ?np = "calm\<lparr>new_page_raises := Some PlaywrightError\<rparr>"
  let ?cl = "calm\<lparr>close_raises := Some PlaywrightError\<rparr>"
  have np: "new_page_raises ?np = Some PlaywrightError"
    by simp
  have cl: "new_page_raises ?cl = None \<and> close_raises ?cl = Some PlaywrightError"
    by (simp add: calm_def)
  let ?ps = "calm\<lparr>goto_raises := Some PlaywrightError\<rparr>"
  have s: "new_page_raises ?ps = None" "close_raises ?ps = None"
    "navigation_error ?ps = Some PlaywrightError" "is_Exception PlaywrightError"
    by (simp_all add: calm_def navigation_error_def)
  have p: "pages idle = []"
    by (simp add: idle_def)
  from s process_page_closes [where ps = ?ps and u = "''https://h/3d''" and st = idle
      and e = PlaywrightError]
  have "fst (process_page ''https://h/3d'' ?ps idle) = None
        \<and> pages (snd (process_page ''https://h/3d'' ?ps idle))
            = pages idle @ [Opened ''https://h/3d'', Closed ''https://h/3d'']
        \<and> CrawlFailed ''https://h/3d'' PlaywrightError
            \<in> set (logged (snd (process_page ''https://h/3d'' ?ps idle)))"
    by blast
  moreover from np process_page_closes [where ps = ?np and u = "''https://h/3d''" and st = idle
      and e = PlaywrightError]
  have "process_page ''https://h/3d'' ?np idle = (Some PlaywrightError, idle)"
    by blast
  moreover from cl process_page_closes [where ps = ?cl and u = "''https://h/3d''" and st = idle
      and e = PlaywrightError]
  have "fst (process_page ''https://h/3d'' ?cl idle) = Some PlaywrightError
        \<and> pages (snd (process_page ''https://h/3d'' ?cl idle)) = pages idle @ [Opened ''https://h/3d'']"
    by blast
  ultimately show ?thesis
    by (simp only: p append_Nil simp_thms)
qed

text \<open>
  The claim has the session never raise. When the browser refuses the new page, the
  exception leaves \<^verbatim>\<open>process_page\<close>.
\<close>

theorem process_page_new_page_counterexample:
  "process_page ''https://h/3d'' (calm\<lparr>new_page_raises := Some PlaywrightError\<rparr>) idle
   = (Some PlaywrightError, idle)"
  by code_simp

section \<open>The scheduler: results\<close>

lemma batch_take:
  "i < length xs \<Longrightarrow> map (\<lambda>j. xs ! (i + j)) [0..<min k (length xs - i)] = take k (drop i xs)"
  by (rule nth_equalityI) auto

lemma batches_from_step:
  "0 < k \<Longrightarrow> i < length xs \<Longrightarrow>
     batches_from k i xs = take k (drop i xs) # batches_from k (i + k) xs"
  by (subst batches_from.simps) (simp add: batch_take)

lemma batches_from_end: "length xs \<le> i \<Longrightarrow> batches_from k i xs = []"
  by (subst batches_from.simps) simp

lemma concat_batches_from: "0 < k \<Longrightarrow> concat (batches_from k i xs) = drop i xs"
proof (induction k i xs rule: batches_from.induct)
  case (1 k i xs)
  show ?case
  proof (cases "i < length xs")
    case True
    with 1 have "concat (batches_from k (i + k) xs) = drop (i + k) xs" by simp
    moreover have "take k (drop i xs) @ drop (i + k) xs = drop i xs"
      using append_take_drop_id [of k "drop i xs"] by (simp add: add.commute)
    ultimately show ?thesis
      using True 1(2) by (simp only: batches_from_step concat.simps)
  next
    case False
    then show ?thesis by (simp add: batches_from_end)
  qed
qed

lemma length_batches_from:
  "0 < k \<Longrightarrow>
     map length (batches_from k i xs)
       = replicate ((length xs - i) div k) k
         @ (if (length xs - i) mod k = 0 then [] else [(length xs - i) mod k])"
proof (induction k i xs rule: batches_from.induct)
  case (1 k i xs)
  let ?m = "length xs - i"
  show ?case
  proof (cases "i < length xs")
    case False
    then show ?thesis by (simp add: batches_from_end)
  next
    case True
    with 1 have ih: "map length (batches_from k (i + k) xs)
       = replicate ((?m - k) div k) k @ (if (?m - k) mod k = 0 then [] else [(?m - k) mod k])"
      by simp
    show ?thesis
    proof (cases "k \<le> ?m")
      case le: True
      then have "?m div k = Suc ((?m - k) div k)" "(?m - k) mod k = ?m mod k"
        using 1(2) by (simp_all add: le_div_geq le_mod_geq)
      with True 1(2) ih le show ?thesis
        by (simp add: batches_from_step min_def)
    next
      case gt: False
      then have "?m div k = 0" "?m mod k = ?m" "?m - k = 0" by simp_all
      with True 1(2) ih gt show ?thesis
        by (simp add: batches_from_step min_def)
    qed
  qed
qed

lemma batches_from_bounds:
  "0 < k \<Longrightarrow> b \<in> set (batches_from k i xs) \<Longrightarrow> b \<noteq> [] \<and> length b \<le> k"
proof (induction k i xs rule: batches_from.induct)
  case (1 k i xs)
  show ?case
  proof (cases "i < length xs")
    case False
    with 1(3) show ?thesis by (simp add: batches_from_end)
  next
    case True
    with 1 show ?thesis
      by (auto simp: batches_from_step)
  qed
qed


lemma open_pages_delta: "open_pages t = sum_list (map delta t)"
  by (induction t rule: open_pages.induct) simp_all

lemma open_pages_append: "open_pages (a @ b) = open_pages a + open_pages b"
  by (simp add: open_pages_delta)

lemma delta_le_opens: "sum_list (map delta t) \<le> sum_list (map opens_page t)"
proof (induction t)
  case Nil
  then show ?case by simp
next
  case (Cons e t)
  then show ?case by (cases e) simp_all
qed

lemma opens_page_nonneg: "0 \<le> sum_list (map opens_page t)"
proof (induction t)
  case Nil
  then show ?case by simp
next
  case (Cons e t)
  then show ?case by (cases e) simp_all
qed

lemma sum_list_concat_Nil:
  fixes w :: "'a list \<Rightarrow> int"
  shows "concat ts = [] \<Longrightarrow> w [] = 0 \<Longrightarrow> sum_list (map w ts) = 0"
  by (induction ts) auto

lemma sum_list_map_update:
  fixes w :: "'a \<Rightarrow> int"
  shows "i < length ts \<Longrightarrow> sum_list (map w (ts[i := x])) = sum_list (map w ts) - w (ts ! i) + w x"
proof (induction ts arbitrary: i)
  case Nil
  then show ?case by simp
next
  case (Cons a ts)
  then show ?case by (cases i) simp_all
qed

lemma gather_sum:
  fixes w :: "'a \<Rightarrow> int"
  shows "gather ts t \<Longrightarrow> sum_list (map w t) = sum_list (map (\<lambda>s. sum_list (map w s)) ts)"
proof (induction rule: gather.induct)
  case (gather_done ts)
  then show ?case by (simp add: sum_list_concat_Nil)
next
  case (gather_step i ts e rest tr)
  from sum_list_map_update [OF gather_step(1), of "\<lambda>s. sum_list (map w s)" rest] gather_step
  show ?case by simp
qed


lemma session_events_cases:
  "session_events (u, ps) =
     (case new_page_raises ps of
        Some e \<Rightarrow> []
      | None \<Rightarrow> Opened u # (case close_raises ps of None \<Rightarrow> [Closed u] | Some e \<Rightarrow> []))"
  by (simp add: session_events_def process_page_pages idle_def)

lemma session_opens_le: "sum_list (map opens_page (session_events s)) \<le> 1"
  by (cases s) (simp add: session_events_cases split: option.splits)

lemma session_returns_balanced:
  "session_returns s \<Longrightarrow> sum_list (map delta (session_events s)) = 0"
  by (cases s)
     (auto simp: session_returns_def session_events_cases process_page_fst split: option.splits)

lemma sum_list_le_length:
  fixes w :: "'a \<Rightarrow> int"
  shows "(\<And>x. w x \<le> 1) \<Longrightarrow> sum_list (map w xs) \<le> int (length xs)"
proof (induction xs)
  case Nil
  then show ?case by simp
next
  case (Cons a xs)
  from Cons.prems [of a] Cons.IH [OF Cons.prems] show ?case by simp
qed

lemma batch_prefix_bound:
  assumes "gather (map session_events b) t" "prefix p t"
  shows "open_pages p \<le> int (length b)"
proof -
  from assms(2) obtain s where t: "t = p @ s" by (auto simp: prefix_def)
  have "open_pages p \<le> sum_list (map opens_page p)"
    by (simp add: open_pages_delta delta_le_opens)
  also have "\<dots> \<le> sum_list (map opens_page t)"
    using opens_page_nonneg [of s] by (simp add: t)
  also have "\<dots> = sum_list (map (\<lambda>x. sum_list (map opens_page (session_events x))) b)"
    using gather_sum [OF assms(1), of opens_page] by (simp add: comp_def)
  also have "\<dots> \<le> int (length b)"
    by (rule sum_list_le_length) (rule session_opens_le)
  finally show ?thesis .
qed

lemma batch_complete:
  assumes "gather (map session_events b) t" "list_all session_returns b"
  shows "open_pages t = 0"
proof -
  have "sum_list (map (\<lambda>x. sum_list (map delta (session_events x))) b) = 0"
    using assms(2) by (induction b) (simp_all add: session_returns_balanced)
  then show ?thesis
    using gather_sum [OF assms(1), of delta] by (simp add: open_pages_delta comp_def)
qed

lemma run_batches_bound:
  assumes "run_batches bs t" "\<And>b. b \<in> set bs \<Longrightarrow> int (length b) \<le> k" "0 \<le> k" "prefix p t"
  shows "open_pages p \<le> k"
  using assms
proof (induction arbitrary: p rule: run_batches.induct)
  case run_done
  then show ?case by simp
next
  case (run_next b t bs t')
  from run_next.prems(3) consider "prefix p t" | p' where "p = t @ p'" "prefix p' t'"
    by (auto simp: prefix_append)
  then show ?case
  proof cases
    case 1
    from batch_prefix_bound [OF run_next.hyps(1) 1] run_next.prems(1) [of b] show ?thesis
      by simp
  next
    case 2
    have "open_pages p' \<le> k"
      by (rule run_next.IH) (use run_next.prems 2 in auto)
    with 2 batch_complete [OF run_next.hyps(1,2)] show ?thesis
      by (simp add: open_pages_append)
  qed
next
  case (run_raised b t bs t0)
  from run_raised.prems(3) run_raised.hyps(3) have "prefix p t"
    by (rule prefix_order.trans)
  from batch_prefix_bound [OF run_raised.hyps(1) this] run_raised.prems(1) [of b] show ?case
    by simp
qed

lemma run_batches_barrier:
  "run_batches (bs1 @ bs2) t \<Longrightarrow> list_all (list_all session_returns) bs1
   \<Longrightarrow> \<exists>t1 t2. t = t1 @ t2 \<and> run_batches bs1 t1 \<and> open_pages t1 = 0 \<and> run_batches bs2 t2"
proof (induction bs1 arbitrary: t)
  case Nil
  have "t = [] @ t \<and> run_batches [] [] \<and> open_pages [] = 0 \<and> run_batches bs2 t"
    using Nil by (simp add: run_done)
  then show ?case by blast
next
  case (Cons b bs1)
  from Cons.prems(1) have "run_batches (b # (bs1 @ bs2)) t" by simp
  then show ?case
  proof (cases rule: run_batches.cases)
    case (run_next ta t')
    then have g: "gather (map session_events b) ta" "list_all session_returns b"
      and r: "run_batches (bs1 @ bs2) t'"
      by simp_all
    from Cons.IH [OF r] Cons.prems(2) obtain t1 t2
      where s: "t' = t1 @ t2" "run_batches bs1 t1" "open_pages t1 = 0" "run_batches bs2 t2"
      by auto
    have "run_batches (b # bs1) (ta @ t1)"
      using g s(2) by (rule run_batches.run_next)
    moreover have "open_pages (ta @ t1) = 0"
      using batch_complete [OF g] s(3) by (simp add: open_pages_append)
    moreover have "t = (ta @ t1) @ t2"
      using run_next s(1) by simp
    ultimately show ?thesis using s(4) by blast
  next
    case (run_raised ta)
    with Cons.prems(2) show ?thesis by simp
  qed
qed


lemma batches_positive:
  "0 < k \<Longrightarrow> batches k xs = Inr (batches_from (nat k) 0 xs)"
  by (simp add: batches_def)

lemma gather_first: "gather (rest # ts) tr \<Longrightarrow> gather ((e # rest) # ts) (e # tr)"
  by (rule gather_step [where i = 0 and rest = rest]) simp_all

lemma gather_second: "gather (a # rest # ts) tr \<Longrightarrow> gather (a # (e # rest) # ts) (e # tr)"
  by (rule gather_step [where i = 1 and rest = rest]) simp_all

lemma calm_session:
  "session_events (u, calm) = [Opened u, Closed u]" "session_returns (u, calm)"
  by (simp_all add: session_events_cases session_returns_def process_page_fst calm_def
      navigation_error_def)

lemma five_batches:
  "batches 2 (sessions five_urls (\<lambda>i. calm))
     = Inr [[(''u1'', calm), (''u2'', calm)], [(''u3'', calm), (''u4'', calm)], [(''u5'', calm)]]"
  by (simp add: batches_def sessions_def five_urls_def batches_from.simps upt_rec)

lemma five_schedule: "schedule 2 five_urls (\<lambda>i. calm) five_trace"
proof -
  have g1: "gather (map session_events [(''u1'', calm), (''u2'', calm)])
              [Opened ''u1'', Opened ''u2'', Closed ''u2'', Closed ''u1'']"
    by (simp add: calm_session)
       (intro gather_first gather_second gather_done, simp)
  have g2: "gather (map session_events [(''u3'', calm), (''u4'', calm)])
              [Opened ''u3'', Opened ''u4'', Closed ''u3'', Closed ''u4'']"
    by (simp add: calm_session)
       (intro gather_first gather_second gather_done, simp)
  have g3: "gather (map session_events [(''u5'', calm)]) [Opened ''u5'', Closed ''u5'']"
    by (simp add: calm_session)
       (intro gather_first gather_done, simp)
  have r3: "run_batches [[(''u5'', calm)]] ([Opened ''u5'', Closed ''u5''] @ [])"
    by (rule run_next [OF g3 _ run_done]) (simp add: calm_session)
  have r2: "run_batches [[(''u3'', calm), (''u4'', calm)], [(''u5'', calm)]]
      ([Opened ''u3'', Opened ''u4'', Closed ''u3'', Closed ''u4'']
       @ [Opened ''u5'', Closed ''u5''] @ [])"
    by (rule run_next [OF g2 _ r3]) (simp add: calm_session)
  have "run_batches
      [[(''u1'', calm), (''u2'', calm)], [(''u3'', calm), (''u4'', calm)], [(''u5'', calm)]]
      ([Opened ''u1'', Opened ''u2'', Closed ''u2'', Closed ''u1'']
       @ [Opened ''u3'', Opened ''u4'', Closed ''u3'', Closed ''u4'']
       @ [Opened ''u5'', Closed ''u5''] @ [])"
    by (rule run_next [OF g1 _ r2]) (simp add: calm_session)
  then show ?thesis
    by (simp add: schedule_def five_batches five_trace_def)
qed

text \<open>
  C2: for a concurrency \<open>k > 0\<close> the loop of \<^verbatim>\<open>run\<close> cuts the targets into consecutive
  batches whose concatenation is the target sequence: \<open>n div k\<close> batches of size \<open>k\<close>,
  followed by one batch of size \<open>n mod k\<close> when that is not zero. In every run of the
  schedule, after every prefix of its page events at most \<open>k\<close> pages are open. The
  batches run one after the other: when the batches \<open>bs1\<close> have all returned, the
  events of the run split into those of \<open>bs1\<close>, after which no page is open, followed
  by those of the remaining batches.
\<close>

theorem schedule_bounded:
  assumes "0 < k"
  shows "(\<exists>bs. batches k xs = Inr bs \<and> concat bs = xs
              \<and> map length bs
                  = replicate (length xs div nat k) (nat k)
                    @ (if length xs mod nat k = 0 then [] else [length xs mod nat k]))
         \<and> (schedule k urls env t \<and> prefix p t \<longrightarrow> open_pages p \<le> k)
         \<and> (batches k (sessions urls env) = Inr (bs1 @ bs2)
              \<and> list_all (list_all session_returns) bs1 \<and> schedule k urls env t \<longrightarrow>
              (\<exists>t1 t2. t = t1 @ t2 \<and> run_batches bs1 t1 \<and> open_pages t1 = 0
                       \<and> run_batches bs2 t2))"
proof (intro conjI impI)
  from assms have k: "0 < nat k" by simp
  show "\<exists>bs. batches k xs = Inr bs \<and> concat bs = xs
              \<and> map length bs
                  = replicate (length xs div nat k) (nat k)
                    @ (if length xs mod nat k = 0 then [] else [length xs mod nat k])"
    using concat_batches_from [OF k, of 0 xs] length_batches_from [OF k, of 0 xs]
    by (simp add: batches_positive [OF assms])
  show "open_pages p \<le> k" if "schedule k urls env t \<and> prefix p t"
  proof (rule run_batches_bound)
    show "run_batches (batches_from (nat k) 0 (sessions urls env)) t"
      using that by (simp add: schedule_def batches_positive [OF assms])
    show "int (length b) \<le> k" if "b \<in> set (batches_from (nat k) 0 (sessions urls env))" for b
    proof -
      from batches_from_bounds [OF k that] have "length b \<le> nat k"
        by simp
      with assms show ?thesis by linarith
    qed
    show "0 \<le> k" using assms by simp
    show "prefix p t" using that by simp
  qed
  show "\<exists>t1 t2. t = t1 @ t2 \<and> run_batches bs1 t1 \<and> open_pages t1 = 0 \<and> run_batches bs2 t2"
    if "batches k (sessions urls env) = Inr (bs1 @ bs2)
        \<and> list_all (list_all session_returns) bs1 \<and> schedule k urls env t"
  proof (rule run_batches_barrier)
    from that show "run_batches (bs1 @ bs2) t"
      by (auto simp: schedule_def)
    from that show "list_all (list_all session_returns) bs1"
      by simp
  qed
qed

theorem schedule_bounded_witness:
  "(\<exists>bs. batches 2 five_urls = Inr bs \<and> concat bs = five_urls \<and> map length bs = [2, 2, 1])
   \<and> schedule 2 five_urls (\<lambda>i. calm) five_trace
   \<and> open_pages [Opened ''u1'', Opened ''u2''] \<le> 2
   \<and> (\<exists>t1 t2. five_trace = t1 @ t2
         \<and> run_batches [[(''u1'', calm), (''u2'', calm)]] t1 \<and> open_pages t1 = 0
         \<and> run_batches [[(''u3'', calm), (''u4'', calm)], [(''u5'', calm)]] t2)"
proof -
  have b: "batches 2 (sessions five_urls (\<lambda>i. calm))
             = Inr ([[(''u1'', calm), (''u2'', calm)]]
                    @ [[(''u3'', calm), (''u4'', calm)], [(''u5'', calm)]])
           \<and> list_all (list_all session_returns) [[(''u1'', calm), (''u2'', calm)]]"
    by (simp add: five_batches calm_session)
  have k: "(0::int) < 2" by simp
  have p: "prefix [Opened ''u1'', Opened ''u2''] five_trace"
    by (simp add: five_trace_def)
  have l: "replicate (length five_urls div nat 2) (nat 2)
             @ (if length five_urls mod nat 2 = 0 then [] else [length five_urls mod nat 2])
           = [2, 2, 1]"
    by code_simp
  from schedule_bounded [OF k, where xs = five_urls and urls = five_urls and env = "\<lambda>i. calm"
      and t = five_trace and p = "[Opened ''u1'', Opened ''u2'']"] five_schedule p
  have "(\<exists>bs. batches 2 five_urls = Inr bs \<and> concat bs = five_urls
              \<and> map length bs
                  = replicate (length five_urls div nat 2) (nat 2)
                    @ (if length five_urls mod nat 2 = 0 then [] else [length five_urls mod nat 2]))
        \<and> open_pages [Opened ''u1'', Opened ''u2''] \<le> 2"
    by blast
  moreover from schedule_bounded [OF k, where urls = five_urls and env = "\<lambda>i. calm"
      and t = five_trace and ?bs1.0 = "[[(''u1'', calm), (''u2'', calm)]]"
      and ?bs2.0 = "[[(''u3'', calm), (''u4'', calm)], [(''u5'', calm)]]"] b five_schedule
  have "\<exists>t1 t2. five_trace = t1 @ t2
         \<and> run_batches [[(''u1'', calm), (''u2'', calm)]] t1 \<and> open_pages t1 = 0
         \<and> run_batches [[(''u3'', calm), (''u4'', calm)], [(''u5'', calm)]] t2"
    by blast
  ultimately show ?thesis
    using five_schedule by (simp only: l simp_thms)
qed

end
